theory Spec2Isabelle
  imports Main "HOL-Library.AList" "HOL-Library.Sublist"
begin

section \<open>Values and the object heap\<close>

text \<open>
  The settings store (\<^verbatim>\<open>createSettingsStore\<close> and its helpers; the line numbers below are
  those of its source file) works on JavaScript values. Objects and arrays have an
  identity (\<^verbatim>\<open>Object.is\<close> compares references) and the code clones and assigns
  properties in place, so they live in a heap: a list of cells, the address of a cell
  being its index. Allocation appends a cell; an address is never reused.

  Numbers are modelled by integers (no \<^verbatim>\<open>NaN\<close>, no signed zero), strings by
  \<^typ>\<open>string\<close>, one \<^typ>\<open>char\<close> for one code unit. An object is the list of its own
  enumerable properties in insertion order (the order of \<^verbatim>\<open>Object.entries\<close> and of a
  spread, for keys that are not array indices); properties inherited from
  \<^verbatim>\<open>Object.prototype\<close> are outside the model.
\<close>

type_synonym addr = nat

datatype jsval =
    VUndefined
  | VNull
  | VBool bool
  | VNum int
  | VStr string
  | VRef addr

datatype hobj =
    HObject "(string \<times> jsval) list"
  | HArray "jsval list"

type_synonym heap = "hobj list"

definition cell :: "heap \<Rightarrow> addr \<Rightarrow> hobj option" where
  "cell h a = (if a < length h then Some (h ! a) else None)"

definition alloc :: "heap \<Rightarrow> hobj \<Rightarrow> heap \<times> addr" where
  "alloc h c = (h @ [c], length h)"

text \<open>\<^verbatim>\<open>Object.is(a, b)\<close>: primitives by value, objects and arrays by reference.\<close>

definition Object_is :: "jsval \<Rightarrow> jsval \<Rightarrow> bool" where
  "Object_is a b \<longleftrightarrow> a = b"

text \<open>\<^verbatim>\<open>Array.isArray(v)\<close>.\<close>

definition isArray :: "heap \<Rightarrow> jsval \<Rightarrow> bool" where
  "isArray h v =
     (case v of
        VRef a \<Rightarrow> (case cell h a of Some (HArray xs) \<Rightarrow> True | _ \<Rightarrow> False)
      | _ \<Rightarrow> False)"

text \<open>
  \<^verbatim>\<open>isObject\<close> (line 120):
  \<^verbatim>\<open>typeof value === "object" && value !== null && !Array.isArray(value)\<close>.
\<close>

definition isObject :: "heap \<Rightarrow> jsval \<Rightarrow> bool" where
  "isObject h v =
     (case v of
        VRef a \<Rightarrow> (case cell h a of Some (HObject ps) \<Rightarrow> True | _ \<Rightarrow> False)
      | _ \<Rightarrow> False)"

text \<open>The own properties of a plain object, as a spread \<^verbatim>\<open>{ ...v }\<close> copies them.
  The code spreads only values it has tested with \<^verbatim>\<open>isObject\<close>, and the state, which
  its type \<^verbatim>\<open>TState extends UnknownObject\<close> makes an object; for anything else the
  model copies nothing.\<close>

definition spread :: "heap \<Rightarrow> jsval \<Rightarrow> (string \<times> jsval) list" where
  "spread h v =
     (case v of
        VRef a \<Rightarrow> (case cell h a of Some (HObject ps) \<Rightarrow> ps | _ \<Rightarrow> [])
      | _ \<Rightarrow> [])"


text \<open>\<^verbatim>\<open>key in obj\<close> and \<^verbatim>\<open>obj[key]\<close> on a plain object.\<close>

definition hasKey :: "heap \<Rightarrow> jsval \<Rightarrow> string \<Rightarrow> bool" where
  "hasKey h v k \<longleftrightarrow> map_of (spread h v) k \<noteq> None"

definition readProp :: "heap \<Rightarrow> jsval \<Rightarrow> string \<Rightarrow> jsval" where
  "readProp h v k = (case map_of (spread h v) k of Some x \<Rightarrow> x | None \<Rightarrow> VUndefined)"

text \<open>\<^verbatim>\<open>obj[key] = x\<close> on the object at address \<open>a\<close>: an existing key keeps its place,
  a new key goes last. The code assigns only to objects it has just created.\<close>

definition writeProp :: "heap \<Rightarrow> addr \<Rightarrow> string \<Rightarrow> jsval \<Rightarrow> heap" where
  "writeProp h a k x =
     (case cell h a of
        Some (HObject ps) \<Rightarrow> h[a := HObject (AList.update k x ps)]
      | _ \<Rightarrow> h)"

section \<open>Path resolver\<close>

text \<open>\<^verbatim>\<open>path.split(".")\<close>: the pieces between the dots, the empty ones included.\<close>

fun split_dot :: "string \<Rightarrow> string list" where
  "split_dot [] = [[]]"
| "split_dot (c # cs) =
     (if c = CHR ''.'' then [] # split_dot cs
      else (case split_dot cs of
              [] \<Rightarrow> [[c]]
            | p # ps \<Rightarrow> (c # p) # ps))"

text \<open>\<^verbatim>\<open>String.prototype.trim\<close> removes white space and line terminators at both ends;
  among the code units below 256 these are 9 to 13, 32 and 160.\<close>

definition is_space :: "char \<Rightarrow> bool" where
  "is_space c \<longleftrightarrow> (of_char c :: nat) \<in> {9, 10, 11, 12, 13, 32, 160}"

definition trim :: "string \<Rightarrow> string" where
  "trim s = rev (dropWhile is_space (rev (dropWhile is_space s)))"

text \<open>\<^verbatim>\<open>parsePath\<close> (line 123): split, trim every part, drop the empty parts.\<close>

definition parsePath :: "string \<Rightarrow> string list" where
  "parsePath path = filter (\<lambda>part. part \<noteq> []) (map trim (split_dot path))"

text \<open>The loop of \<^verbatim>\<open>getByPath\<close> (lines 135 to 144).\<close>

fun walk :: "heap \<Rightarrow> jsval \<Rightarrow> string list \<Rightarrow> jsval" where
  "walk h current [] = current"
| "walk h current (part # parts) =
     (if \<not> isObject h current \<or> \<not> hasKey h current part then VUndefined
      else walk h (readProp h current part) parts)"

definition getByPath :: "heap \<Rightarrow> jsval \<Rightarrow> string \<Rightarrow> jsval" where
  "getByPath h input path =
     (let parts = parsePath path in
      if parts = [] then input else walk h input parts)"

text \<open>
  The loop of \<^verbatim>\<open>setByPath\<close> (lines 156 to 164) with its cursor. One iteration
  (\<open>cloneBranch\<close>, lines 157 to 161) reads \<^verbatim>\<open>cursor[key]\<close>, allocates the clone of
  that branch (or an empty object) and stores it in the cursor; the cursor then moves
  there. After the loop the last part is assigned the new value (line 164).
\<close>

definition cloneBranch :: "heap \<Rightarrow> addr \<Rightarrow> string \<Rightarrow> heap \<times> addr" where
  "cloneBranch h cursor key =
     (let next = readProp h (VRef cursor) key;
          (h1, branch) = alloc h (HObject (if isObject h next then spread h next else []))
      in (writeProp h1 cursor key (VRef branch), branch))"

fun setLoop :: "heap \<Rightarrow> addr \<Rightarrow> string list \<Rightarrow> jsval \<Rightarrow> heap" where
  "setLoop h cursor [] x = h"
| "setLoop h cursor [final] x = writeProp h cursor final x"
| "setLoop h cursor (key # rest) x =
     (case cloneBranch h cursor key of (h2, branch) \<Rightarrow> setLoop h2 branch rest x)"

definition setByPath :: "heap \<Rightarrow> jsval \<Rightarrow> string \<Rightarrow> jsval \<Rightarrow> heap \<times> jsval" where
  "setByPath h st path x =
     (let parts = parsePath path in
      if parts = [] then (h, st)
      else (let (h1, cloneRoot) = alloc h (HObject (spread h st))
            in (setLoop h1 cloneRoot parts x, VRef cloneRoot)))"

section \<open>Structural merge engine\<close>




text \<open>
  \<^verbatim>\<open>mergeSkippingConflicts\<close> (lines 192 to 239). The array \<^verbatim>\<open>conflicts\<close> that the closure
  appends to is passed along. The path of an entry is
  \<^verbatim>\<open>path ? `${path}.${key}` : key\<close>.
\<close>

definition nextPath :: "string \<Rightarrow> string \<Rightarrow> string" where
  "nextPath path key = (if path \<noteq> [] then path @ ''.'' @ key else key)"




section \<open>The store\<close>

text \<open>
  \<^verbatim>\<open>createSettingsStore\<close> closes over the variables \<^verbatim>\<open>state\<close>, \<^verbatim>\<open>initialState\<close>,
  \<^verbatim>\<open>listeners\<close>, \<^verbatim>\<open>syncAdapters\<close> and the options; the record \<open>store\<close> holds them,
  together with the heap. What the store does to its collaborators (the persistence
  adapter, the sync adapters, the callbacks and the subscribers) is recorded, in order,
  in the list \<open>effects\<close>. The callbacks and subscribers are taken to return normally and
  not to call back into the store.
\<close>

datatype source = SrcSet | SrcSetState | SrcReset | SrcHydrate | SrcImport | SrcSync

text \<open>The event passed to \<^verbatim>\<open>commitState\<close>, and \<^verbatim>\<open>SettingsStateChangeEvent\<close> (line 11), which
  adds the two snapshots.\<close>

record event_meta =
  ev_source :: source
  ev_path :: "string option"
  ev_value :: "jsval option"
  ev_previousValue :: "jsval option"

record state_change = event_meta +
  ev_state :: jsval
  ev_previousState :: jsval

text \<open>\<^verbatim>\<open>SettingsChangeEvent\<close> (line 4).\<close>

record change_event =
  ch_path :: string
  ch_value :: jsval
  ch_previousValue :: jsval
  ch_state :: jsval

text \<open>A call \<^verbatim>\<open>adapter.push(state)\<close> returns (a value or a promise that is fulfilled),
  returns a promise that is rejected, or throws.\<close>

datatype push_outcome = Fulfils | Rejects jsval | Throws jsval

text \<open>
  \<^verbatim>\<open>SettingsSyncAdapter\<close> (line 59). \<open>aid\<close> is the identity of the adapter object, by which
  the set \<^verbatim>\<open>syncAdapters\<close> tells adapters apart. \<open>pull\<close> is \<open>None\<close> for an adapter
  without \<^verbatim>\<open>pull\<close>, else the value the pull resolves to; \<open>subscribe\<close> is \<open>None\<close> for
  an adapter without \<^verbatim>\<open>subscribe\<close>, else whether it returns an unsubscribe function;
  \<open>onError\<close> tells whether the adapter has an error sink.
\<close>

record sync_adapter =
  aid :: nat
  pull :: "jsval option"
  push :: "jsval \<Rightarrow> push_outcome"
  subscribe :: "bool option"
  merge :: "(heap \<Rightarrow> jsval \<Rightarrow> jsval \<Rightarrow> heap \<times> jsval) option"
  validate :: "(heap \<Rightarrow> jsval \<Rightarrow> bool) option"
  onError :: bool

text \<open>\<^verbatim>\<open>SettingsPersistenceAdapter\<close> (line 39): what \<^verbatim>\<open>load\<close> resolves to, and what
  \<^verbatim>\<open>loadSync\<close> returns when the adapter has one. \<^verbatim>\<open>save\<close> is recorded as an effect.\<close>

record persistence_adapter =
  load :: jsval
  loadSync :: "jsval option"

datatype effect =
    Save jsval
  | Push nat jsval
  | OnError nat jsval
  | OnStateChange state_change
  | OnChange change_event
  | Listener nat
  | Subscribed nat
  | Unsubscribed nat

text \<open>One call of \<^verbatim>\<open>syncSettings\<close> that reached its end: the adapter, the flag
  \<^verbatim>\<open>stopped\<close> of that call, and whether there is an \<^verbatim>\<open>unsubscribe\<close> to call.\<close>

record session =
  s_adapter :: sync_adapter
  stopped :: bool
  unsubscribe :: bool

record store =
  mem :: heap
  state :: jsval
  initialState :: jsval
  persistence :: "persistence_adapter option"
  onChange :: bool
  onStateChange :: bool
  listeners :: "nat list"
  syncAdapters :: "sync_adapter list"
  rejections :: "(sync_adapter \<times> jsval) list"
  sessions :: "session list"
  effects :: "effect list"

record store_options =
  opt_initialState :: jsval
  opt_persistence :: "persistence_adapter option"
  opt_onChange :: bool
  opt_onStateChange :: bool

datatype error =
    ImportNotObject
  | ImportValidationFailed
  | PullValidationFailed
  | RangeError
  | Thrown jsval

text \<open>Truthiness, as \<^verbatim>\<open>if (persisted)\<close> and \<^verbatim>\<open>if (incoming)\<close> test it.\<close>

fun truthy :: "jsval \<Rightarrow> bool" where
  "truthy VUndefined = False"
| "truthy VNull = False"
| "truthy (VBool b) = b"
| "truthy (VNum n) = (n \<noteq> 0)"
| "truthy (VStr s) = (s \<noteq> [])"
| "truthy (VRef a) = True"

text \<open>Lines 252 to 260, over the heap \<open>h\<close> that holds the trees of the options.\<close>

definition createSettingsStore :: "heap \<Rightarrow> store_options \<Rightarrow> store" where
  "createSettingsStore h opts =
     \<lparr> mem = h,
       state =
         (case opt_persistence opts of
            None \<Rightarrow> opt_initialState opts
          | Some p \<Rightarrow>
              (case loadSync p of
                 None \<Rightarrow> opt_initialState opts
               | Some persisted \<Rightarrow>
                   if truthy persisted then persisted else opt_initialState opts)),
       initialState = opt_initialState opts,
       persistence = opt_persistence opts,
       onChange = opt_onChange opts,
       onStateChange = opt_onStateChange opts,
       listeners = [],
       syncAdapters = [],
       rejections = [],
       sessions = [],
       effects = [] \<rparr>"

definition emit :: "effect \<Rightarrow> store \<Rightarrow> store" where
  "emit e st = st\<lparr>effects := effects st @ [e]\<rparr>"

text \<open>\<^verbatim>\<open>notify\<close> (line 262).\<close>

definition notify :: "store \<Rightarrow> store" where
  "notify st = st\<lparr>effects := effects st @ map Listener (listeners st)\<rparr>"

text \<open>\<^verbatim>\<open>persist\<close> (line 266).\<close>

definition persist :: "store \<Rightarrow> jsval \<Rightarrow> store" where
  "persist st nextState =
     (case persistence st of
        None \<Rightarrow> st
      | Some p \<Rightarrow> emit (Save nextState) st)"

text \<open>
  \<^verbatim>\<open>syncPush\<close> (line 274): \<^verbatim>\<open>forEach\<close> over the adapters in insertion order. Each push is
  called inside \<^verbatim>\<open>Promise.resolve(...)\<close>; the handler given to \<^verbatim>\<open>catch\<close> runs later, for a
  rejected promise, so a rejection is queued. A push that throws does so before
  \<^verbatim>\<open>Promise.resolve\<close> is entered: the exception leaves \<^verbatim>\<open>forEach\<close> and \<^verbatim>\<open>syncPush\<close>.
\<close>

fun pushAll :: "sync_adapter list \<Rightarrow> jsval \<Rightarrow> store \<Rightarrow> error option \<times> store" where
  "pushAll [] nextState st = (None, st)"
| "pushAll (adapter # rest) nextState st =
     (case push adapter nextState of
        Throws e \<Rightarrow> (Some (Thrown e), emit (Push (aid adapter) nextState) st)
      | Rejects e \<Rightarrow>
          pushAll rest nextState
            ((emit (Push (aid adapter) nextState) st)
               \<lparr>rejections := rejections st @ [(adapter, e)]\<rparr>)
      | Fulfils \<Rightarrow> pushAll rest nextState (emit (Push (aid adapter) nextState) st))"

definition syncPush :: "store \<Rightarrow> jsval \<Rightarrow> error option \<times> store" where
  "syncPush st nextState = pushAll (syncAdapters st) nextState st"

text \<open>The handlers queued by \<^verbatim>\<open>catch\<close> (line 276), run when the pending promises settle:
  \<^verbatim>\<open>adapter.onError?.(error)\<close>.\<close>

fun runHandlers :: "(sync_adapter \<times> jsval) list \<Rightarrow> store \<Rightarrow> store" where
  "runHandlers [] st = st"
| "runHandlers ((adapter, e) # rest) st =
     runHandlers rest (if onError adapter then emit (OnError (aid adapter) e) st else st)"

definition settle :: "store \<Rightarrow> store" where
  "settle st = runHandlers (rejections st) (st\<lparr>rejections := []\<rparr>)"

text \<open>The third argument of \<^verbatim>\<open>commitState\<close>, \<^verbatim>\<open>{ persist?: boolean; sync?: boolean }\<close>.\<close>

record commit_options =
  persist_opt :: "bool option"
  sync_opt :: "bool option"

definition wants :: "commit_options option \<Rightarrow> (commit_options \<Rightarrow> bool option) \<Rightarrow> bool" where
  "wants options field =
     (case options of
        None \<Rightarrow> True
      | Some opts \<Rightarrow> (case field opts of None \<Rightarrow> True | Some b \<Rightarrow> b))"

text \<open>\<^verbatim>\<open>commitState\<close> (line 282). The result is the exception that left the call, if any,
  and the store as the call left it.\<close>

definition commitState ::
  "store \<Rightarrow> jsval \<Rightarrow> event_meta \<Rightarrow> commit_options option \<Rightarrow> error option \<times> store" where
  "commitState st nextState event options =
     (if Object_is nextState (state st) then (None, st)
      else
        (let previousState = state st;
             st1 = st\<lparr>state := nextState\<rparr>;
             st2 = (if wants options persist_opt then persist st1 nextState else st1);
             (thrown, st3) =
               (if wants options sync_opt then syncPush st2 nextState else (None, st2))
         in case thrown of
              Some e \<Rightarrow> (Some e, st3)
            | None \<Rightarrow>
                (let st4 =
                   (if onStateChange st3 then
                      emit (OnStateChange
                        (event_meta.extend event
                           \<lparr>ev_state = nextState, ev_previousState = previousState\<rparr>)) st3
                    else st3)
                 in (None, notify st4))))"

definition meta :: "source \<Rightarrow> event_meta" where
  "meta src = \<lparr>ev_source = src, ev_path = None, ev_value = None, ev_previousValue = None\<rparr>"

definition getInitialState :: "store \<Rightarrow> jsval" where
  "getInitialState st = initialState st"

definition getState :: "store \<Rightarrow> jsval" where
  "getState st = state st"

text \<open>\<^verbatim>\<open>setState\<close> (line 307): the argument is a tree or an updater function.\<close>

datatype updater = Literal jsval | Updater "heap \<Rightarrow> jsval \<Rightarrow> heap \<times> jsval"

definition setState :: "store \<Rightarrow> updater \<Rightarrow> error option \<times> store" where
  "setState st u =
     (case u of
        Literal nextState \<Rightarrow> commitState st nextState (meta SrcSetState) None
      | Updater f \<Rightarrow>
          (case f (mem st) (state st) of
             (h1, nextState) \<Rightarrow> commitState (st\<lparr>mem := h1\<rparr>) nextState (meta SrcSetState) None))"

text \<open>\<^verbatim>\<open>reset\<close> (line 316).\<close>

definition reset :: "store \<Rightarrow> error option \<times> store" where
  "reset st = commitState st (initialState st) (meta SrcReset) None"

text \<open>\<^verbatim>\<open>subscribe\<close> (line 319) and the function it returns; a subscriber is known by a
  number.\<close>

definition subscribe_store :: "store \<Rightarrow> nat \<Rightarrow> store" where
  "subscribe_store st listener =
     st\<lparr>listeners := (if listener \<in> set (listeners st) then listeners st
                        else listeners st @ [listener])\<rparr>"

definition unsubscribe_store :: "store \<Rightarrow> nat \<Rightarrow> store" where
  "unsubscribe_store st listener = st\<lparr>listeners := removeAll listener (listeners st)\<rparr>"

text \<open>\<^verbatim>\<open>get\<close> (line 325) and \<^verbatim>\<open>set\<close> (line 326).\<close>

definition get_store :: "store \<Rightarrow> string \<Rightarrow> jsval" where
  "get_store st path = getByPath (mem st) (state st) path"

definition set_store :: "store \<Rightarrow> string \<Rightarrow> jsval \<Rightarrow> error option \<times> store" where
  "set_store st path x =
     (let previousValue = getByPath (mem st) (state st) path;
          (h1, nextState) = setByPath (mem st) (state st) path x;
          st1 = st\<lparr>mem := h1\<rparr>
      in if Object_is previousValue x then (None, st1)
         else
           (case commitState st1 nextState
                   \<lparr>ev_source = SrcSet, ev_path = Some path, ev_value = Some x,
                     ev_previousValue = Some previousValue\<rparr> None of
              (Some e, st2) \<Rightarrow> (Some e, st2)
            | (None, st2) \<Rightarrow>
                (None,
                 if onChange st2 then
                   emit (OnChange \<lparr>ch_path = path, ch_value = x,
                                    ch_previousValue = previousValue, ch_state = nextState\<rparr>) st2
                 else st2)))"

text \<open>\<^verbatim>\<open>hydrate\<close> (line 346); \<open>hydrated\<close> is what follows the \<^verbatim>\<open>await\<close>.\<close>

definition hydrated :: "store \<Rightarrow> jsval \<Rightarrow> error option \<times> store" where
  "hydrated st persisted =
     (if \<not> truthy persisted then (None, st)
      else commitState st persisted (meta SrcHydrate)
             (Some \<lparr>persist_opt = Some False, sync_opt = Some False\<rparr>))"

definition hydrate :: "store \<Rightarrow> error option \<times> store" where
  "hydrate st =
     (case persistence st of
        None \<Rightarrow> (None, st)
      | Some p \<Rightarrow> hydrated st (load p))"






text \<open>
  \<^verbatim>\<open>syncSettings\<close> (line 397), in its three steps: the registration (line 398), the
  treatment of the pulled value after the \<^verbatim>\<open>await\<close> (lines 403 to 410), and the
  subscription (lines 413 to 431), which yields the stop function, here the index of
  the session.
\<close>

definition register :: "store \<Rightarrow> sync_adapter \<Rightarrow> store" where
  "register st adapter =
     st\<lparr>syncAdapters :=
          (if aid adapter \<in> set (map aid (syncAdapters st)) then syncAdapters st
           else syncAdapters st @ [adapter])\<rparr>"

definition invalid :: "sync_adapter \<Rightarrow> heap \<Rightarrow> jsval \<Rightarrow> bool" where
  "invalid adapter h incoming =
     (case validate adapter of None \<Rightarrow> False | Some valid \<Rightarrow> \<not> valid h incoming)"

definition reconcile :: "store \<Rightarrow> sync_adapter \<Rightarrow> jsval \<Rightarrow> error option \<times> store" where
  "reconcile st adapter incoming =
     (case (case merge adapter of
              None \<Rightarrow> (mem st, incoming)
            | Some f \<Rightarrow> f (mem st) (getState st) incoming) of
        (h1, merged) \<Rightarrow>
          commitState (st\<lparr>mem := h1\<rparr>) merged (meta SrcSync)
            (Some \<lparr>persist_opt = None, sync_opt = Some False\<rparr>))"

definition pulled :: "store \<Rightarrow> sync_adapter \<Rightarrow> jsval \<Rightarrow> error option \<times> store" where
  "pulled st adapter incoming =
     (if truthy incoming then
        (if invalid adapter (mem st) incoming then (Some PullValidationFailed, st)
         else reconcile st adapter incoming)
      else (None, st))"

definition listen :: "store \<Rightarrow> sync_adapter \<Rightarrow> nat \<times> store" where
  "listen st adapter =
     (let st1 = (case subscribe adapter of
                   None \<Rightarrow> st
                 | Some u \<Rightarrow> emit (Subscribed (aid adapter)) st);
          s = \<lparr>s_adapter = adapter, stopped = False,
                unsubscribe = (subscribe adapter = Some True)\<rparr>
      in (length (sessions st1), st1\<lparr>sessions := sessions st1 @ [s]\<rparr>))"

definition syncSettings :: "store \<Rightarrow> sync_adapter \<Rightarrow> (error + nat) \<times> store" where
  "syncSettings st adapter =
     (let st1 = register st adapter in
      case (case pull adapter of
              None \<Rightarrow> (None, st1)
            | Some incoming \<Rightarrow> pulled st1 adapter incoming) of
        (Some e, st2) \<Rightarrow> (Inl e, st2)
      | (None, st2) \<Rightarrow> (case listen st2 adapter of (stop, st3) \<Rightarrow> (Inr stop, st3)))"

text \<open>The listener that \<^verbatim>\<open>syncSettings\<close> hands to \<^verbatim>\<open>adapter.subscribe\<close> (lines 413 to 424),
  called by the adapter with an incoming tree.\<close>

definition inbound :: "store \<Rightarrow> nat \<Rightarrow> jsval \<Rightarrow> error option \<times> store" where
  "inbound st i incoming =
     (if i < length (sessions st) then
        (let s = sessions st ! i in
         if stopped s then (None, st)
         else if invalid (s_adapter s) (mem st) incoming then (None, st)
         else reconcile st (s_adapter s) incoming)
      else (None, st))"

text \<open>The stop function returned by \<^verbatim>\<open>syncSettings\<close> (lines 426 to 430).\<close>

definition stopSync :: "store \<Rightarrow> nat \<Rightarrow> store" where
  "stopSync st i =
     (if i < length (sessions st) then
        (let s = sessions st ! i;
             st1 = st\<lparr>sessions := (sessions st)[i := s\<lparr>stopped := True\<rparr>],
                      syncAdapters :=
                        filter (\<lambda>a. aid a \<noteq> aid (s_adapter s)) (syncAdapters st)\<rparr>
         in if unsubscribe s then emit (Unsubscribed (aid (s_adapter s))) st1 else st1)
      else st)"

text \<open>A sequence of \<^verbatim>\<open>set\<close> calls, the caller going on after a call that threw.\<close>

fun set_all :: "store \<Rightarrow> (string \<times> jsval) list \<Rightarrow> store" where
  "set_all st [] = st"
| "set_all st ((path, x) # calls) = set_all (snd (set_store st path x)) calls"

section \<open>Trees\<close>

text \<open>
  The content of a value: the tree that is read by following the references from it.
  \<open>tree_of n h v\<close> reads it through at most \<open>n\<close> levels; it is \<open>None\<close> when the tree
  is deeper (or cyclic), when a reference points outside the heap, or when an object
  lists a key twice. Two values are equal in content when they have the same tree.
\<close>

datatype tree =
    TUndefined
  | TNull
  | TBool bool
  | TNum int
  | TStr string
  | TArray "tree list"
  | TObject "(string \<times> tree) list"

fun trees_of :: "(jsval \<Rightarrow> tree option) \<Rightarrow> jsval list \<Rightarrow> tree list option" where
  "trees_of f [] = Some []"
| "trees_of f (x # xs) =
     (case f x of
        None \<Rightarrow> None
      | Some t \<Rightarrow> (case trees_of f xs of None \<Rightarrow> None | Some ts \<Rightarrow> Some (t # ts)))"

fun entries_of ::
  "(jsval \<Rightarrow> tree option) \<Rightarrow> (string \<times> jsval) list \<Rightarrow> (string \<times> tree) list option" where
  "entries_of f [] = Some []"
| "entries_of f ((k, x) # ps) =
     (case f x of
        None \<Rightarrow> None
      | Some t \<Rightarrow> (case entries_of f ps of None \<Rightarrow> None | Some ts \<Rightarrow> Some ((k, t) # ts)))"

primrec tree_of :: "nat \<Rightarrow> heap \<Rightarrow> jsval \<Rightarrow> tree option" where
  "tree_of 0 h v = None"
| "tree_of (Suc n) h v =
     (case v of
        VUndefined \<Rightarrow> Some TUndefined
      | VNull \<Rightarrow> Some TNull
      | VBool b \<Rightarrow> Some (TBool b)
      | VNum i \<Rightarrow> Some (TNum i)
      | VStr s \<Rightarrow> Some (TStr s)
      | VRef a \<Rightarrow>
          (case cell h a of
             None \<Rightarrow> None
           | Some (HArray xs) \<Rightarrow> map_option TArray (trees_of (tree_of n h) xs)
           | Some (HObject ps) \<Rightarrow>
               if distinct (map fst ps) then map_option TObject (entries_of (tree_of n h) ps)
               else None))"

text \<open>The value of a tree at a list of keys, \<open>None\<close> where \<^verbatim>\<open>getByPath\<close> finds no such
  key; and the value of a key as \<^verbatim>\<open>obj[key]\<close> reads it.\<close>

fun tget :: "tree \<Rightarrow> string list \<Rightarrow> tree option" where
  "tget t [] = Some t"
| "tget (TObject ts) (k # ks) = (case map_of ts k of None \<Rightarrow> None | Some t \<Rightarrow> tget t ks)"
| "tget t (k # ks) = None"

definition tlookup :: "(string \<times> tree) list \<Rightarrow> string \<Rightarrow> tree" where
  "tlookup ts k = (case map_of ts k of None \<Rightarrow> TUndefined | Some t \<Rightarrow> t)"

fun is_mapping :: "tree \<Rightarrow> bool" where
  "is_mapping (TObject ts) = True"
| "is_mapping t = False"






fun tree_skip :: "tree \<Rightarrow> tree \<Rightarrow> tree"
  and tree_skip_entries :: "(string \<times> tree) list \<Rightarrow> (string \<times> tree) list \<Rightarrow> (string \<times> tree) list"
where
  "tree_skip l (TObject rts) =
     (if l = TObject rts then l
      else (case l of
              TObject lts \<Rightarrow> TObject (tree_skip_entries lts rts)
            | TUndefined \<Rightarrow> TObject rts
            | _ \<Rightarrow> l))"
| "tree_skip l TUndefined = l"
| "tree_skip l TNull = (if l = TUndefined then TNull else l)"
| "tree_skip l (TBool b) = (if l = TUndefined then TBool b else l)"
| "tree_skip l (TNum i) = (if l = TUndefined then TNum i else l)"
| "tree_skip l (TStr s) = (if l = TUndefined then TStr s else l)"
| "tree_skip l (TArray ts) = (if l = TUndefined then TArray ts else l)"
| "tree_skip_entries acc [] = acc"
| "tree_skip_entries acc ((k, rt) # rts) =
     tree_skip_entries (AList.update k (tree_skip (tlookup acc k) rt) acc) rts"

text \<open>
  The conflicts of the skipping merge, as far as the trees decide them. Where the two
  sides have the same content in different objects the code descends or records a
  conflict, and where they are the same object it does neither: \<open>conf True\<close> lists the
  paths of the first case, \<open>conf False\<close> those of the second.
\<close>

fun conf :: "bool \<Rightarrow> tree \<Rightarrow> tree \<Rightarrow> string \<Rightarrow> string list"
  and conf_entries ::
    "bool \<Rightarrow> (string \<times> tree) list \<Rightarrow> (string \<times> tree) list \<Rightarrow> string \<Rightarrow> string list"
where
  "conf strict l (TObject rts) path =
     (if l = TObject rts \<and> \<not> strict then []
      else (case l of
              TObject lts \<Rightarrow> conf_entries strict lts rts path
            | TUndefined \<Rightarrow> []
            | _ \<Rightarrow> [path]))"
| "conf strict l (TArray ts) path =
     (if l = TUndefined \<or> (l = TArray ts \<and> \<not> strict) then [] else [path])"
| "conf strict l TUndefined path = (if l = TUndefined then [] else [path])"
| "conf strict l TNull path = (if l = TUndefined \<or> l = TNull then [] else [path])"
| "conf strict l (TBool b) path = (if l = TUndefined \<or> l = TBool b then [] else [path])"
| "conf strict l (TNum i) path = (if l = TUndefined \<or> l = TNum i then [] else [path])"
| "conf strict l (TStr s) path = (if l = TUndefined \<or> l = TStr s then [] else [path])"
| "conf_entries strict acc [] path = []"
| "conf_entries strict acc ((k, rt) # rts) path =
     conf strict (tlookup acc k) rt (nextPath path k)
       @ conf_entries strict (AList.update k (tree_skip (tlookup acc k) rt) acc) rts path"



section \<open>Example stores\<close>

text \<open>The tree \<^verbatim>\<open>{x: 1, y: 2}\<close> at address 0 and the tree \<^verbatim>\<open>{x: 5}\<close> at address 1.\<close>

definition heap0 :: heap where
  "heap0 = [HObject [(''x'', VNum 1), (''y'', VNum 2)], HObject [(''x'', VNum 5)]]"

definition memory :: "jsval option \<Rightarrow> persistence_adapter" where
  "memory seed = \<lparr>load = (case seed of None \<Rightarrow> VNull | Some t \<Rightarrow> t), loadSync = seed\<rparr>"

definition options0 :: store_options where
  "options0 = \<lparr>opt_initialState = VRef 0, opt_persistence = Some (memory None),
                opt_onChange = True, opt_onStateChange = True\<rparr>"

text \<open>A store over \<^verbatim>\<open>{x: 1, y: 2}\<close> with a persistence adapter that holds nothing, both
  callbacks and one subscriber.\<close>

definition store0 :: store where
  "store0 = subscribe_store (createSettingsStore heap0 options0) 7"

text \<open>Sync adapters whose push is fulfilled, is rejected, throws.\<close>

definition adapter :: "nat \<Rightarrow> push_outcome \<Rightarrow> sync_adapter" where
  "adapter i outcome =
     \<lparr>aid = i, pull = None, push = (\<lambda>s. outcome), subscribe = None, merge = None,
      validate = None, onError = True\<rparr>"

text \<open>A remote adapter with a pull, an inbound feed and a validator, and the validator
  that asks for a key \<^verbatim>\<open>y\<close>.\<close>

definition remote :: "nat \<Rightarrow> jsval \<Rightarrow> (heap \<Rightarrow> jsval \<Rightarrow> bool) option \<Rightarrow> sync_adapter" where
  "remote i t v = (adapter i Fulfils)\<lparr>pull := Some t, subscribe := Some True, validate := v\<rparr>"

definition has_y :: "heap \<Rightarrow> jsval \<Rightarrow> bool" where
  "has_y h v = hasKey h v ''y''"

text \<open>The store \<open>store0\<close> with a persistence adapter whose asynchronous \<^verbatim>\<open>load\<close> yields
  \<^verbatim>\<open>{x: 5}\<close>.\<close>

definition store1 :: store where
  "store1 = store0\<lparr>persistence := Some \<lparr>load = VRef 1, loadSync = None\<rparr>\<rparr>"

text \<open>\<open>store0\<close> after \<^verbatim>\<open>syncSettings\<close> with an adapter whose push throws and then with one
  whose push is fulfilled; and \<open>store0\<close> after \<^verbatim>\<open>syncSettings\<close> with one adapter whose push
  is fulfilled.\<close>

definition store2 :: store where
  "store2 =
     snd (syncSettings (snd (syncSettings store0 (adapter 1 (Throws (VStr ''network failure'')))))
            (adapter 2 Fulfils))"

definition store3 :: store where
  "store3 = snd (syncSettings store0 (adapter 1 Fulfils))"




section \<open>Properties of the path resolver\<close>

lemma length_writeProp [simp]: "length (writeProp h a k x) = length h"
  by (simp add: writeProp_def split: option.splits hobj.splits)

lemma writeProp_other: "b \<noteq> a \<Longrightarrow> writeProp h a k x ! b = h ! b"
  by (simp add: writeProp_def split: option.splits hobj.splits)

lemma cloneBranch_length:
  "cloneBranch h c k = (h2, b) \<Longrightarrow> length h2 = Suc (length h) \<and> b = length h"
  by (auto simp: cloneBranch_def alloc_def Let_def)

lemma cloneBranch_other:
  "cloneBranch h c k = (h2, b) \<Longrightarrow> a < length h \<Longrightarrow> a \<noteq> c \<Longrightarrow> h2 ! a = h ! a"
  by (auto simp: cloneBranch_def alloc_def Let_def writeProp_other nth_append)



lemma setLoop_length: "length h \<le> length (setLoop h c ps x)"
proof (induction ps arbitrary: h c)
  case (Cons k ps)
  note IH = Cons.IH
  show ?case
  proof (cases ps)
    case (Cons k2 ps2)
    obtain h2 b where cb: "cloneBranch h c k = (h2, b)" by (cases "cloneBranch h c k")
    have "length h2 \<le> length (setLoop h2 b ps x)" by (rule IH)
    with cb cloneBranch_length[OF cb] show ?thesis by (simp add: Cons)
  qed simp
qed simp

text \<open>The loop writes to its cursor and to the cells it allocates, never below.\<close>

lemma setLoop_below: "a < c \<Longrightarrow> c < length h \<Longrightarrow> setLoop h c ps x ! a = h ! a"
proof (induction ps arbitrary: h c)
  case (Cons k ps)
  note IH = Cons.IH and prems = Cons.prems
  show ?case
  proof (cases ps)
    case Nil
    with prems show ?thesis by (simp add: writeProp_other)
  next
    case (Cons k2 ps2)
    obtain h2 b where cb: "cloneBranch h c k = (h2, b)" by (cases "cloneBranch h c k")
    have "setLoop h2 b ps x ! a = h2 ! a"
      using prems cloneBranch_length[OF cb] by (intro IH) auto
    moreover have "h2 ! a = h ! a"
      using prems by (intro cloneBranch_other[OF cb]) auto
    ultimately show ?thesis using cb by (simp add: Cons)
  qed
qed simp


lemma prefix_nthI:
  "length h \<le> length h' \<Longrightarrow> (\<And>a. a < length h \<Longrightarrow> h' ! a = h ! a) \<Longrightarrow> prefix h h'"
  by (metis nth_take_lemma prefix_def append_take_drop_id length_take min.absorb2 nth_take
        order_refl take_all)

text \<open>\<^verbatim>\<open>setByPath\<close> leaves every existing object as it is: the new heap is the old one followed
  by the clones.\<close>

lemma setByPath_prefix: "setByPath h t p x = (h', t') \<Longrightarrow> prefix h h'"
proof (cases "parsePath p = []")
  case True
  assume "setByPath h t p x = (h', t')"
  with True show ?thesis by (simp add: setByPath_def)
next
  case False
  assume a: "setByPath h t p x = (h', t')"
  let ?h1 = "h @ [HObject (spread h t)]"
  from a False have h': "h' = setLoop ?h1 (length h) (parsePath p) x"
    by (auto simp: setByPath_def alloc_def Let_def)
  show ?thesis
  proof (rule prefix_nthI)
    show "length h \<le> length h'"
      using setLoop_length[of ?h1 "length h" "parsePath p" x] h' by simp
  next
    fix a assume "a < length h"
    then show "h' ! a = h ! a"
      using setLoop_below[of a "length h" ?h1 "parsePath p" x] h' by (simp add: nth_append)
  qed
qed

lemma setByPath_empty: "parsePath p = [] \<Longrightarrow> setByPath h t p x = (h, t)"
  by (simp add: setByPath_def)



lemma parsePath_x: "parsePath ''x'' = [''x'']"
  by (simp add: parsePath_def trim_def is_space_def)




section \<open>Properties of the store\<close>

lemma emit_fields [simp]:
  "state (emit e st) = state st" "mem (emit e st) = mem st"
  "initialState (emit e st) = initialState st" "listeners (emit e st) = listeners st"
  "syncAdapters (emit e st) = syncAdapters st" "sessions (emit e st) = sessions st"
  "rejections (emit e st) = rejections st" "persistence (emit e st) = persistence st"
  "onChange (emit e st) = onChange st" "onStateChange (emit e st) = onStateChange st"
  "effects (emit e st) = effects st @ [e]"
  by (simp_all add: emit_def)

lemma notify_fields [simp]:
  "state (notify st) = state st" "mem (notify st) = mem st"
  "initialState (notify st) = initialState st" "listeners (notify st) = listeners st"
  "syncAdapters (notify st) = syncAdapters st" "sessions (notify st) = sessions st"
  "rejections (notify st) = rejections st" "persistence (notify st) = persistence st"
  "onChange (notify st) = onChange st" "onStateChange (notify st) = onStateChange st"
  "effects (notify st) = effects st @ map Listener (listeners st)"
  by (simp_all add: notify_def)

lemma persist_fields [simp]:
  "state (persist st n) = state st" "mem (persist st n) = mem st"
  "initialState (persist st n) = initialState st" "listeners (persist st n) = listeners st"
  "syncAdapters (persist st n) = syncAdapters st" "sessions (persist st n) = sessions st"
  "rejections (persist st n) = rejections st" "persistence (persist st n) = persistence st"
  "onChange (persist st n) = onChange st" "onStateChange (persist st n) = onStateChange st"
  by (simp_all add: persist_def split: option.splits)

lemma pushAll_fields:
  "state (snd (pushAll as n st)) = state st \<and> mem (snd (pushAll as n st)) = mem st \<and>
   initialState (snd (pushAll as n st)) = initialState st \<and>
   listeners (snd (pushAll as n st)) = listeners st \<and>
   syncAdapters (snd (pushAll as n st)) = syncAdapters st \<and>
   sessions (snd (pushAll as n st)) = sessions st \<and>
   persistence (snd (pushAll as n st)) = persistence st \<and>
   onChange (snd (pushAll as n st)) = onChange st \<and>
   onStateChange (snd (pushAll as n st)) = onStateChange st"
  by (induction as arbitrary: st) (auto split: push_outcome.splits)

lemma pushAll_empty [simp]: "pushAll [] n st = (None, st)"
  by simp

text \<open>What a commit leaves of the store: the new snapshot, the same heap, the same initial
  snapshot and the same registrations, whether or not a push threw.\<close>

lemma commitState_fields:
  assumes "commitState st n ev opts = (r, st')"
  shows "state st' = n" and "mem st' = mem st" and "initialState st' = initialState st"
    and "syncAdapters st' = syncAdapters st" and "listeners st' = listeners st"
    and "sessions st' = sessions st" and "persistence st' = persistence st"
    and "onChange st' = onChange st" and "onStateChange st' = onStateChange st"
proof -
  let ?st2 = "if wants opts persist_opt then persist (st\<lparr>state := n\<rparr>) n else st\<lparr>state := n\<rparr>"
  obtain t st3 where p: "(if wants opts sync_opt then syncPush ?st2 n else (None, ?st2)) = (t, st3)"
    by (cases "if wants opts sync_opt then syncPush ?st2 n else (None, ?st2)")
  have st3: "state st3 = n \<and> mem st3 = mem st \<and> initialState st3 = initialState st \<and>
     syncAdapters st3 = syncAdapters st \<and> listeners st3 = listeners st \<and>
     sessions st3 = sessions st \<and> persistence st3 = persistence st \<and>
     onChange st3 = onChange st \<and> onStateChange st3 = onStateChange st"
    using p pushAll_fields[of "syncAdapters ?st2" n ?st2]
    by (auto simp: syncPush_def split: if_splits)
  have "state st' = n \<and> mem st' = mem st \<and> initialState st' = initialState st \<and>
     syncAdapters st' = syncAdapters st \<and> listeners st' = listeners st \<and>
     sessions st' = sessions st \<and> persistence st' = persistence st \<and>
     onChange st' = onChange st \<and> onStateChange st' = onStateChange st"
  proof (cases "Object_is n (state st)")
    case True
    with assms show ?thesis by (simp add: commitState_def Object_is_def)
  next
    case False
    with assms p st3 show ?thesis
      by (auto simp: commitState_def Let_def split: option.splits if_splits)
  qed
  then show "state st' = n" and "mem st' = mem st" and "initialState st' = initialState st"
    and "syncAdapters st' = syncAdapters st" and "listeners st' = listeners st"
    and "sessions st' = sessions st" and "persistence st' = persistence st"
    and "onChange st' = onChange st" and "onStateChange st' = onStateChange st"
    by simp_all
qed

lemma commitState_same: "commitState st (state st) ev opts = (None, st)"
  by (simp add: commitState_def Object_is_def)

lemma set_store_fields:
  assumes "set_store st p x = (r, st')"
  shows "mem st' = fst (setByPath (mem st) (state st) p x)"
    and "initialState st' = initialState st"
    and "syncAdapters st' = syncAdapters st" and "listeners st' = listeners st"
    and "sessions st' = sessions st" and "persistence st' = persistence st"
proof -
  obtain h1 n where sp: "setByPath (mem st) (state st) p x = (h1, n)"
    by (cases "setByPath (mem st) (state st) p x")
  let ?ev = "\<lparr>ev_source = SrcSet, ev_path = Some p, ev_value = Some x,
               ev_previousValue = Some (getByPath (mem st) (state st) p)\<rparr>"
  obtain t st2 where c: "commitState (st\<lparr>mem := h1\<rparr>) n ?ev None = (t, st2)"
    by (cases "commitState (st\<lparr>mem := h1\<rparr>) n ?ev None")
  note f = commitState_fields[OF c]
  have "mem st' = h1 \<and> initialState st' = initialState st \<and>
    syncAdapters st' = syncAdapters st \<and> listeners st' = listeners st \<and>
    sessions st' = sessions st \<and> persistence st' = persistence st"
    using assms sp c f
    by (auto simp: set_store_def Let_def split: if_splits option.splits)
  with sp show "mem st' = fst (setByPath (mem st) (state st) p x)"
    and "initialState st' = initialState st"
    and "syncAdapters st' = syncAdapters st" and "listeners st' = listeners st"
    and "sessions st' = sessions st" and "persistence st' = persistence st"
    by simp_all
qed

lemma set_store_prefix: "prefix (mem st) (mem (snd (set_store st p x)))"
  using set_store_fields(1)[of st p x "fst (set_store st p x)" "snd (set_store st p x)"]
    setByPath_prefix[of "mem st" "state st" p x]
  by (metis prod.collapse)

lemma set_all_frame:
  "prefix (mem st) (mem (set_all st calls)) \<and>
   initialState (set_all st calls) = initialState st \<and>
   syncAdapters (set_all st calls) = syncAdapters st"
proof (induction calls arbitrary: st)
  case (Cons c calls)
  obtain p x where c: "c = (p, x)" by (cases c)
  let ?st1 = "snd (set_store st p x)"
  have 1: "prefix (mem st) (mem ?st1)" by (rule set_store_prefix)
  have 2: "initialState ?st1 = initialState st" "syncAdapters ?st1 = syncAdapters st"
    using set_store_fields[of st p x "fst (set_store st p x)" ?st1] by simp_all
  from Cons.IH[of ?st1] 1 2 show ?case
    by (auto simp: c intro: prefix_order.trans)
qed simp






text \<open>
  C9. When the store is constructed with a persistence adapter whose \<^verbatim>\<open>loadSync\<close> returns a
  truthy value (any tree is one), that value is the current state right away, with no
  effect recorded: no save, push, state-change event or subscriber call.
  \<^verbatim>\<open>getInitialState\<close> still returns the \<^verbatim>\<open>initialState\<close> of the options, so the two differ
  whenever the loaded tree is not that very tree, and \<^verbatim>\<open>reset\<close> returns normally and
  makes the constructor argument, not the loaded tree, the current state.
\<close>

theorem loadSync_seeds_state:
  assumes "opt_persistence opts = Some p" and "loadSync p = Some t" and "truthy t"
  shows "getState (createSettingsStore h opts) = t \<and>
         getInitialState (createSettingsStore h opts) = opt_initialState opts \<and>
         effects (createSettingsStore h opts) = [] \<and>
         rejections (createSettingsStore h opts) = [] \<and>
         (t \<noteq> opt_initialState opts \<longrightarrow>
            getState (createSettingsStore h opts) \<noteq> getInitialState (createSettingsStore h opts)) \<and>
         fst (reset (createSettingsStore h opts)) = None \<and>
         getState (snd (reset (createSettingsStore h opts))) = opt_initialState opts"
proof -
  let ?st = "createSettingsStore h opts"
  have s: "state ?st = t" "initialState ?st = opt_initialState opts" "effects ?st = []"
    "rejections ?st = []" "syncAdapters ?st = []"
    using assms by (simp_all add: createSettingsStore_def)
  have "fst (reset ?st) = None"
    using s by (simp add: reset_def commitState_def Let_def syncPush_def split: prod.splits)
  moreover have "state (snd (reset ?st)) = opt_initialState opts"
    using commitState_fields(1)[of ?st "initialState ?st" "meta SrcReset" None
        "fst (reset ?st)" "snd (reset ?st)"] s
    by (simp add: reset_def)
  ultimately show ?thesis using s by (simp add: getState_def getInitialState_def)
qed

theorem loadSync_seeds_state_witness:
  "opt_persistence (options0\<lparr>opt_persistence := Some (memory (Some (VRef 1)))\<rparr>)
     = Some (memory (Some (VRef 1))) \<and>
   loadSync (memory (Some (VRef 1))) = Some (VRef 1) \<and> truthy (VRef 1) \<and>
   getState (createSettingsStore heap0
     (options0\<lparr>opt_persistence := Some (memory (Some (VRef 1)))\<rparr>)) = VRef 1 \<and>
   getInitialState (createSettingsStore heap0
     (options0\<lparr>opt_persistence := Some (memory (Some (VRef 1)))\<rparr>)) = VRef 0 \<and>
   effects (createSettingsStore heap0
     (options0\<lparr>opt_persistence := Some (memory (Some (VRef 1)))\<rparr>)) = [] \<and>
   getState (snd (reset (createSettingsStore heap0
     (options0\<lparr>opt_persistence := Some (memory (Some (VRef 1)))\<rparr>)))) = VRef 0"
  using loadSync_seeds_state[of "options0\<lparr>opt_persistence := Some (memory (Some (VRef 1)))\<rparr>"
      "memory (Some (VRef 1))" "VRef 1" heap0]
  by (simp add: memory_def options0_def)

text \<open>
  C7. For every store and every finite sequence of \<^verbatim>\<open>set\<close> calls, \<^verbatim>\<open>reset\<close> afterwards
  makes \<^verbatim>\<open>getState\<close> equal to \<^verbatim>\<open>getInitialState\<close>; \<^verbatim>\<open>getInitialState\<close> returns the same
  reference after the calls and after the reset as before them, and the heap after them
  is the heap before them followed by new cells: no object that existed before, the
  initial tree's among them, has been written to. (The statement holds for every
  sequence, so for every moment of a longer one.)
\<close>

theorem reset_after_sets:
  "getState (snd (reset (set_all st calls))) = getInitialState (snd (reset (set_all st calls))) \<and>
   getInitialState (snd (reset (set_all st calls))) = getInitialState st \<and>
   getInitialState (set_all st calls) = getInitialState st \<and>
   prefix (mem st) (mem (set_all st calls)) \<and>
   mem (snd (reset (set_all st calls))) = mem (set_all st calls)"
proof -
  let ?st1 = "set_all st calls"
  note f = commitState_fields[of ?st1 "initialState ?st1" "meta SrcReset" None
      "fst (reset ?st1)" "snd (reset ?st1)"]
  have r: "commitState ?st1 (initialState ?st1) (meta SrcReset) None
             = (fst (reset ?st1), snd (reset ?st1))"
    by (simp add: reset_def)
  from f(1)[OF r] f(2)[OF r] f(3)[OF r] set_all_frame[of st calls]
  show ?thesis by (simp add: getState_def getInitialState_def)
qed

section \<open>Sync engine\<close>

lemma register_fields [simp]:
  "state (register st a) = state st" "mem (register st a) = mem st"
  "initialState (register st a) = initialState st" "listeners (register st a) = listeners st"
  "sessions (register st a) = sessions st" "effects (register st a) = effects st"
  "rejections (register st a) = rejections st" "persistence (register st a) = persistence st"
  "onChange (register st a) = onChange st" "onStateChange (register st a) = onStateChange st"
  by (simp_all add: register_def)


text \<open>
  C8. For every store and every sync adapter with a \<^verbatim>\<open>validate\<close> function: when the value
  that \<^verbatim>\<open>pull\<close> yields is truthy (a tree is) and fails the validation, \<^verbatim>\<open>syncSettings\<close>
  raises the validation error; when a tree delivered to the inbound listener of one of
  the adapter's sessions fails the validation, the listener returns normally and the
  store is exactly as before.
\<close>

theorem sync_validation_failures:
  assumes "validate a = Some valid"
  shows "(pull a = Some t \<and> truthy t \<and> \<not> valid (mem st) t \<longrightarrow>
           fst (syncSettings st a) = Inl PullValidationFailed) \<and>
         (i < length (sessions st) \<and> s_adapter (sessions st ! i) = a \<and> \<not> valid (mem st) t' \<longrightarrow>
           inbound st i t' = (None, st))"
  using assms
  by (auto simp: syncSettings_def pulled_def invalid_def inbound_def Let_def)

text \<open>The examples are evaluated with the numeral \<open>1\<close> kept as it is.\<close>

declare One_nat_def [simp del]

lemmas example_defs =
  store0_def store1_def subscribe_store_def createSettingsStore_def options0_def heap0_def
  memory_def adapter_def remote_def has_y_def store2_def store3_def

lemmas run_defs =
  syncSettings_def pulled_def invalid_def reconcile_def listen_def register_def inbound_def
  commitState_def syncPush_def persist_def emit_def notify_def wants_def meta_def
  Object_is_def getState_def getInitialState_def hydrate_def hydrated_def
  hasKey_def readProp_def spread_def isObject_def cell_def Let_def

theorem sync_validation_failures_witness:
  "validate (remote 4 (VRef 1) (Some has_y)) = Some has_y \<and>
   pull (remote 4 (VRef 1) (Some has_y)) = Some (VRef 1) \<and> truthy (VRef 1) \<and>
   \<not> has_y (mem store0) (VRef 1) \<and>
   fst (syncSettings store0 (remote 4 (VRef 1) (Some has_y))) = Inl PullValidationFailed \<and>
   0 < length (sessions (snd (syncSettings store0 (remote 5 (VRef 0) (Some has_y))))) \<and>
   inbound (snd (syncSettings store0 (remote 5 (VRef 0) (Some has_y)))) 0 (VRef 1)
     = (None, snd (syncSettings store0 (remote 5 (VRef 0) (Some has_y))))"
proof -
  let ?a = "remote 4 (VRef 1) (Some has_y)"
  let ?b = "remote 5 (VRef 0) (Some has_y)"
  let ?st = "snd (syncSettings store0 ?b)"
  have a: "validate ?a = Some has_y" "pull ?a = Some (VRef 1)" "\<not> has_y (mem store0) (VRef 1)"
    by (simp_all add: example_defs run_defs)
  have b: "validate ?b = Some has_y" by (simp add: example_defs)
  have s: "sessions ?st = [\<lparr>s_adapter = ?b, stopped = False, unsubscribe = True\<rparr>]"
    "mem ?st = heap0"
    by (simp_all add: example_defs run_defs)
  have c: "\<not> has_y (mem ?st) (VRef 1)"
    unfolding s by (simp add: example_defs run_defs)
  from sync_validation_failures[OF a(1), where t="VRef 1" and st=store0] a
  have 1: "fst (syncSettings store0 ?a) = Inl PullValidationFailed" by simp
  from sync_validation_failures[OF b, where i=0 and st="?st" and t'="VRef 1"] s(1) c
  have 2: "inbound ?st 0 (VRef 1) = (None, ?st)" by simp
  from a 1 2 s(1) show ?thesis by simp
qed












section \<open>Push failures\<close>

lemma parsePath_x_store2:
  "setByPath heap0 (VRef 0) ''x'' (VNum 9)
     = (heap0 @ [HObject [(''x'', VNum 9), (''y'', VNum 2)]], VRef 2)"
  by (simp add: setByPath_def parsePath_x alloc_def heap0_def spread_def cell_def writeProp_def)

lemma store2_simps:
  "mem store2 = heap0" "state store2 = VRef 0" "effects store2 = []" "listeners store2 = [7]"
  "map aid (syncAdapters store2) = [1, 2]" "rejections store2 = []"
  by (simp_all add: example_defs run_defs)

text \<open>
  C1, at an adapter whose push throws. On \<open>store2\<close> two adapters are registered: number 1,
  whose push throws, and number 2. \<^verbatim>\<open>set("x", 9)\<close> commits the new state, saves it and calls
  the push of adapter 1; the exception then leaves \<^verbatim>\<open>set\<close>: the caller receives it, the
  push of adapter 2 is not called, no state-change event or subscriber call is made, and
  the error sink of adapter 1 is not called, also not once the pending promises have
  settled.
\<close>

theorem push_throw_reaches_caller:
  "fst (set_store store2 ''x'' (VNum 9)) = Some (Thrown (VStr ''network failure'')) \<and>
   getState store2 = VRef 0 \<and> getState (snd (set_store store2 ''x'' (VNum 9))) = VRef 2 \<and>
   get_store (snd (set_store store2 ''x'' (VNum 9))) ''x'' = VNum 9 \<and>
   map aid (syncAdapters store2) = [1, 2] \<and> onError (syncAdapters store2 ! 0) \<and>
   effects (snd (set_store store2 ''x'' (VNum 9))) = [Save (VRef 2), Push 1 (VRef 2)] \<and>
   effects (settle (snd (set_store store2 ''x'' (VNum 9)))) = [Save (VRef 2), Push 1 (VRef 2)]"
proof -
  have s: "set_store store2 ''x'' (VNum 9) =
    (Some (Thrown (VStr ''network failure'')),
     store2\<lparr>mem := heap0 @ [HObject [(''x'', VNum 9), (''y'', VNum 2)]], state := VRef 2,
       effects := [Save (VRef 2), Push 1 (VRef 2)]\<rparr>)"
    by (simp add: set_store_def store2_simps parsePath_x_store2 getByPath_def parsePath_x)
       (simp add: example_defs run_defs)
  show ?thesis
    unfolding s
    by (simp add: store2_simps get_store_def getByPath_def parsePath_x settle_def)
       (simp add: example_defs run_defs)
qed

section \<open>Rejected pushes\<close>

text \<open>
  While no push throws, the push step queues one rejection for each push that is
  rejected, and none for the others; when the promises settle, each queued rejection of
  an adapter with an error sink becomes one call of that sink.
\<close>

lemma pushAll_rejections:
  "\<forall>b\<in>set as. \<forall>e. push b n \<noteq> Throws e \<Longrightarrow>
     rejections (snd (pushAll as n st)) =
       rejections st
       @ concat (map (\<lambda>b. case push b n of Rejects e \<Rightarrow> [(b, e)] | _ \<Rightarrow> []) as)"
proof (induction as arbitrary: st)
  case (Cons a as)
  show ?case
  proof (cases "push a n")
    case Fulfils
    with Cons.IH[of "emit (Push (aid a) n) st"] Cons.prems show ?thesis by simp
  next
    case (Rejects e)
    with Cons.IH[of "(emit (Push (aid a) n) st)\<lparr>rejections := rejections st @ [(a, e)]\<rparr>"]
      Cons.prems
    show ?thesis by simp
  next
    case (Throws e)
    with Cons.prems show ?thesis by simp
  qed
qed simp

lemma runHandlers_effects:
  "effects (runHandlers rs st) =
     effects st @ concat (map (\<lambda>(b, e). if onError b then [OnError (aid b) e] else []) rs)"
  by (induction rs arbitrary: st) auto

lemma settle_effects:
  "effects (settle st) =
     effects st
     @ concat (map (\<lambda>(b, e). if onError b then [OnError (aid b) e] else []) (rejections st))"
  by (simp add: settle_def runHandlers_effects)

section \<open>Trees of heap values\<close>

lemma trees_of_Some:
  "trees_of f xs = Some ts \<longleftrightarrow> list_all2 (\<lambda>x t. f x = Some t) xs ts"
proof (induction xs arbitrary: ts)
  case (Cons x xs)
  show ?case
  proof (cases ts)
    case Nil
    then show ?thesis by (simp split: option.splits)
  next
    case (Cons t ts')
    have "trees_of f (x # xs) = Some (t # ts') \<longleftrightarrow> f x = Some t \<and> trees_of f xs = Some ts'"
      by (auto split: option.splits)
    with Cons.IH[of ts'] Cons show ?thesis by simp
  qed
qed auto

lemma entries_of_Some:
  "entries_of f ps = Some ts \<longleftrightarrow>
     list_all2 (\<lambda>p q. fst q = fst p \<and> f (snd p) = Some (snd q)) ps ts"
proof (induction ps arbitrary: ts)
  case (Cons p ps)
  obtain k x where p: "p = (k, x)" by (cases p)
  show ?case
  proof (cases ts)
    case Nil
    then show ?thesis by (simp add: p split: option.splits)
  next
    case (Cons q ts')
    have "entries_of f (p # ps) = Some (q # ts') \<longleftrightarrow>
            fst q = k \<and> f x = Some (snd q) \<and> entries_of f ps = Some ts'"
      by (cases q) (auto simp: p split: option.splits)
    with Cons.IH[of ts'] Cons show ?thesis by (simp add: p)
  qed
qed auto

lemma tree_of_object:
  "tree_of (Suc n) h v = Some (TObject ts) \<longleftrightarrow>
     (\<exists>a ps. v = VRef a \<and> cell h a = Some (HObject ps) \<and> distinct (map fst ps) \<and>
        list_all2 (\<lambda>p q. fst q = fst p \<and> tree_of n h (snd p) = Some (snd q)) ps ts)"
  by (auto simp: entries_of_Some split: jsval.splits option.splits hobj.splits)

lemma tree_of_array:
  "tree_of (Suc n) h v = Some (TArray ts) \<longleftrightarrow>
     (\<exists>a xs. v = VRef a \<and> cell h a = Some (HArray xs) \<and>
        list_all2 (\<lambda>x t. tree_of n h x = Some t) xs ts)"
  by (auto simp: trees_of_Some split: jsval.splits option.splits hobj.splits)

lemma tree_of_prim:
  "tree_of (Suc n) h v = Some TUndefined \<longleftrightarrow> v = VUndefined"
  "tree_of (Suc n) h v = Some TNull \<longleftrightarrow> v = VNull"
  "tree_of (Suc n) h v = Some (TBool b) \<longleftrightarrow> v = VBool b"
  "tree_of (Suc n) h v = Some (TNum i) \<longleftrightarrow> v = VNum i"
  "tree_of (Suc n) h v = Some (TStr s) \<longleftrightarrow> v = VStr s"
  by (auto split: jsval.splits option.splits hobj.splits)






lemma tree_of_agree:
  "tree_of n h v = Some t \<Longrightarrow> (\<And>a. a < length h \<Longrightarrow> cell g a = cell h a) \<Longrightarrow>
     tree_of n g v = Some t"
proof (induction n arbitrary: v t)
  case (Suc n)
  show ?case
  proof (cases v)
    case (VRef a)
    with Suc.prems(1) have a: "a < length h"
      by (auto simp: cell_def split: if_splits)
    then have c: "cell g a = cell h a" by (rule Suc.prems(2))
    show ?thesis
    proof (cases "h ! a")
      case (HObject ps)
      with Suc.prems(1) VRef a obtain ts where t: "t = TObject ts" and d: "distinct (map fst ps)"
        and l: "list_all2 (\<lambda>p q. fst q = fst p \<and> tree_of n h (snd p) = Some (snd q)) ps ts"
        by (auto simp: cell_def entries_of_Some split: if_splits)
      from l have "list_all2 (\<lambda>p q. fst q = fst p \<and> tree_of n g (snd p) = Some (snd q)) ps ts"
        by (rule list_all2_mono) (use Suc.IH Suc.prems(2) in blast)
      with d c a HObject show ?thesis
        unfolding t VRef by (subst tree_of_object) (auto simp: cell_def)
    next
      case (HArray xs)
      with Suc.prems(1) VRef a obtain ts where t: "t = TArray ts"
        and l: "list_all2 (\<lambda>x t. tree_of n h x = Some t) xs ts"
        by (auto simp: cell_def trees_of_Some split: if_splits)
      from l have "list_all2 (\<lambda>x t. tree_of n g x = Some t) xs ts"
        by (rule list_all2_mono) (use Suc.IH Suc.prems(2) in blast)
      with c a HArray show ?thesis
        unfolding t VRef by (subst tree_of_array) (auto simp: cell_def)
    qed
  qed (use Suc.prems(1) in auto)
qed simp







lemma tree_of_isObject: "tree_of n h v = Some t \<Longrightarrow> isObject h v \<longleftrightarrow> is_mapping t"
  by (cases n) (auto simp: isObject_def split: jsval.splits option.splits hobj.splits if_splits)


lemma cell_object_reads:
  assumes "cell h a = Some (HObject ps)"
  shows "spread h (VRef a) = ps" and "isObject h (VRef a)" and "\<not> isArray h (VRef a)"
    and "readProp h (VRef a) k = (case map_of ps k of None \<Rightarrow> VUndefined | Some x \<Rightarrow> x)"
  using assms by (simp_all add: spread_def isObject_def isArray_def readProp_def)




lemma cell_prefix: "prefix h h' \<Longrightarrow> a < length h \<Longrightarrow> cell h' a = cell h a"
  by (auto simp: prefix_def cell_def nth_append)



text \<open>Two property lists with the same keys and related values.\<close>

lemma related_lookup:
  assumes "list_all2 (\<lambda>p q. fst q = fst p \<and> P (snd p) (snd q)) ps ts"
  shows "(map_of ps k = None \<and> map_of ts k = None) \<or>
         (\<exists>x t. map_of ps k = Some x \<and> map_of ts k = Some t \<and> P x t)"
  using assms
proof (induction ps ts rule: list_all2_induct)
  case (Cons p ps q ts)
  then show ?case by (cases p; cases q) auto
qed simp





section \<open>The tree that \<^verbatim>\<open>deepMerge\<close> produces\<close>






text \<open>A tree merged with itself is that tree.\<close>

lemma tlookup_update: "tlookup (AList.update k t ts) k' = (if k' = k then t else tlookup ts k')"
  by (simp add: tlookup_def update_conv')




section \<open>Import\<close>









section \<open>The tree and the conflicts that \<^verbatim>\<open>mergeSkippingConflicts\<close> produces\<close>

lemma tree_skip_same [simp]: "tree_skip t t = t"
  by (cases t) simp_all

lemma conf_same [simp]: "conf False t t path = []"
  by (cases t) simp_all


lemma conf_undefined [simp]: "conf strict TUndefined t path = []"
  by (cases t) simp_all



lemma tree_of_undefined: "tree_of n h v = Some TUndefined \<longleftrightarrow> n \<noteq> 0 \<and> v = VUndefined"
  by (cases n) (auto simp: tree_of_prim simp del: tree_of.simps(2))



section \<open>The skipping merge on trees\<close>














section \<open>Path strings\<close>

lemma split_dot_nonempty [simp]: "split_dot s \<noteq> []"
  by (induction s) (auto split: list.splits)
















section \<open>Trees and paths\<close>

lemma tree_of_mono: "tree_of n h v = Some t \<Longrightarrow> tree_of (Suc n) h v = Some t"
proof (induction n arbitrary: v t)
  case (Suc m)
  show ?case
  proof (cases t)
    case (TObject ts)
    from Suc.prems[unfolded TObject tree_of_object] obtain a ps where v: "v = VRef a"
      and c: "cell h a = Some (HObject ps)" and d: "distinct (map fst ps)"
      and l: "list_all2 (\<lambda>p q. fst q = fst p \<and> tree_of m h (snd p) = Some (snd q)) ps ts"
      by blast
    from l have "list_all2 (\<lambda>p q. fst q = fst p \<and> tree_of (Suc m) h (snd p) = Some (snd q)) ps ts"
      by (rule list_all2_mono) (use Suc.IH in blast)
    with v c d show ?thesis unfolding TObject tree_of_object by blast
  next
    case (TArray ts)
    from Suc.prems[unfolded TArray tree_of_array] obtain a xs where v: "v = VRef a"
      and c: "cell h a = Some (HArray xs)"
      and l: "list_all2 (\<lambda>x t. tree_of m h x = Some t) xs ts"
      by blast
    from l have "list_all2 (\<lambda>x t. tree_of (Suc m) h x = Some t) xs ts"
      by (rule list_all2_mono) (use Suc.IH in blast)
    with v c show ?thesis unfolding TArray tree_of_array by blast
  qed (use Suc.prems in \<open>simp_all add: tree_of_prim del: tree_of.simps(2)\<close>)
qed simp

text \<open>\<open>tget\<close> is what the loop of \<^verbatim>\<open>getByPath\<close> reads: the tree of the value found at the
  parts of a path is the tree found at these keys, \<^verbatim>\<open>undefined\<close> where there is none.\<close>

lemma walk_tree:
  "tree_of n h v = Some t \<Longrightarrow>
     tree_of n h (walk h v ps) = Some (case tget t ps of None \<Rightarrow> TUndefined | Some t' \<Rightarrow> t')"
proof (induction ps arbitrary: n v t)
  case (Cons k ks)
  obtain m where n: "n = Suc m" using Cons.prems by (cases n) auto
  have u: "tree_of n h VUndefined = Some TUndefined" by (simp add: n)
  show ?case
  proof (cases "is_mapping t")
    case False
    then have "\<not> isObject h v" using tree_of_isObject[OF Cons.prems] by simp
    moreover have "tget t (k # ks) = None" using False by (cases t) simp_all
    ultimately show ?thesis using u by simp
  next
    case True
    then obtain ts where t: "t = TObject ts" by (cases t) auto
    from Cons.prems[unfolded t n tree_of_object] obtain a ps where v: "v = VRef a"
      and c: "cell h a = Some (HObject ps)"
      and l: "list_all2 (\<lambda>p q. fst q = fst p \<and> tree_of m h (snd p) = Some (snd q)) ps ts"
      by blast
    note rd = cell_object_reads[OF c, folded v]
    from related_lookup[OF l, of k] show ?thesis
    proof
      assume "map_of ps k = None \<and> map_of ts k = None"
      then show ?thesis using u by (simp add: hasKey_def rd t)
    next
      assume "\<exists>x t'. map_of ps k = Some x \<and> map_of ts k = Some t' \<and> tree_of m h x = Some t'"
      then obtain x t' where x: "map_of ps k = Some x" "map_of ts k = Some t'"
        "tree_of m h x = Some t'" by blast
      from Cons.IH[OF x(3)] have "tree_of (Suc m) h (walk h x ks)
          = Some (case tget t' ks of None \<Rightarrow> TUndefined | Some t'' \<Rightarrow> t'')"
        by (rule tree_of_mono)
      with x show ?thesis by (simp add: hasKey_def rd t n del: tree_of.simps(2))
    qed
  qed
qed simp

text \<open>The tree of a value is the same in every heap that extends the one it was read in;
  so after any sequence of \<^verbatim>\<open>set\<close> calls the initial snapshot has the tree it had.\<close>

lemma tree_of_prefix: "tree_of n h v = Some t \<Longrightarrow> prefix h h' \<Longrightarrow> tree_of n h' v = Some t"
  by (erule tree_of_agree) (simp add: cell_prefix)

lemma initial_tree_unchanged:
  "tree_of n (mem st) (getInitialState st) = Some t \<Longrightarrow>
     tree_of n (mem (set_all st calls)) (getInitialState (set_all st calls)) = Some t"
  using set_all_frame[of st calls] by (auto simp: getInitialState_def intro: tree_of_prefix)

end
